theory Spec2Isabelle
  imports Complex_Main "HOL-Library.AList" "HOL-Library.Multiset"
begin

section \<open>Data model\<close>

text \<open>
  The class \<open>GPSREC\<close> of \<open>gps_uphill_detection.py\<close>. The timestamp is a
  \<open>datetime.time\<close>; it is modelled by the number of microseconds since midnight, which
  is the quantity Python compares two times by and subtracts them by. Longitude, latitude
  and altitude are Python floats. The type \<open>'f\<close> is the type of the float values; the
  program is modelled for any such type.
\<close>

record 'f GPSREC =
  timestamp :: nat
  longitude :: 'f
  latitude :: 'f
  altitude :: 'f
  uphill :: bool

text \<open>
  The program keeps references to \<open>GPSREC\<close> objects in lists and in a dictionary and
  mutates the objects in place. An object reference is an address, the objects live in
  a store, and a Python list of records is a list of addresses.
\<close>

type_synonym addr = nat

type_synonym 'f heap = "addr \<Rightarrow> 'f GPSREC"

datatype error = ValueError | OverflowError

section \<open>Float arithmetic\<close>

text \<open>
  The float operations the program uses come from Python and its \<open>math\<close> module, not from
  the repository. The program is modelled over a record of these operations:
  \<open>f_lit\<close> gives the float a numeric literal of the source denotes (\<open>0.3\<close>, \<open>10.0\<close>,
  \<open>6371.0\<close>, and the integers \<open>1\<close>, \<open>2\<close>, \<open>1000\<close> where they meet a float);
  \<open>f_add\<close>, \<open>f_sub\<close>, \<open>f_mul\<close>, \<open>f_div\<close> are \<open>+\<close>, \<open>-\<close>, \<open>*\<close>, \<open>/\<close>;
  \<open>f_lt\<close> and \<open>f_ge\<close> are the comparisons \<open><\<close> and \<open>>=\<close>;
  \<open>f_radians\<close> and \<open>f_atan2\<close> are \<open>math.radians\<close> and \<open>math.atan2\<close>, which never raise.
  \<open>math.sin\<close>, \<open>math.cos\<close> and \<open>math.sqrt\<close> can raise \<open>ValueError\<close> and \<open>**\<close> can raise
  \<open>OverflowError\<close>, so \<open>f_sin\<close>, \<open>f_cos\<close>, \<open>f_sqrt\<close> and \<open>f_pow\<close> return an error or a
  float. Whatever is proved for every such record holds for IEEE double arithmetic
  with its rounding.
\<close>

record 'f arith =
  f_lit :: "real \<Rightarrow> 'f"
  f_add :: "'f \<Rightarrow> 'f \<Rightarrow> 'f"
  f_sub :: "'f \<Rightarrow> 'f \<Rightarrow> 'f"
  f_mul :: "'f \<Rightarrow> 'f \<Rightarrow> 'f"
  f_div :: "'f \<Rightarrow> 'f \<Rightarrow> 'f"
  f_pow :: "'f \<Rightarrow> nat \<Rightarrow> error + 'f"
  f_lt :: "'f \<Rightarrow> 'f \<Rightarrow> bool"
  f_ge :: "'f \<Rightarrow> 'f \<Rightarrow> bool"
  f_radians :: "'f \<Rightarrow> 'f"
  f_sin :: "'f \<Rightarrow> error + 'f"
  f_cos :: "'f \<Rightarrow> error + 'f"
  f_sqrt :: "'f \<Rightarrow> error + 'f"
  f_atan2 :: "'f \<Rightarrow> 'f \<Rightarrow> 'f"

subsection \<open>Exact arithmetic\<close>

text \<open>
  The operations on real numbers, without rounding: \<open>math.sqrt\<close> raises \<open>ValueError\<close> on
  a negative argument, and \<open>math.atan2 y x\<close> is the angle of the point \<open>(x, y)\<close>, in
  \<open>(-pi, pi]\<close>. The example runs below are computed in this arithmetic.
\<close>

definition radians :: "real \<Rightarrow> real" where
  "radians x = x * pi / 180"

definition py_sqrt :: "real \<Rightarrow> error + real" where
  "py_sqrt x = (if x < 0 then Inl ValueError else Inr (sqrt x))"

definition atan2 :: "real \<Rightarrow> real \<Rightarrow> real" where
  "atan2 y x =
     (if 0 < x then arctan (y / x)
      else if x < 0 then (if 0 \<le> y then arctan (y / x) + pi else arctan (y / x) - pi)
      else if 0 < y then pi / 2
      else if y < 0 then - pi / 2
      else 0)"

definition exact :: "real arith" where
  "exact =
     \<lparr>f_lit = (\<lambda>x. x), f_add = (+), f_sub = (-), f_mul = (*), f_div = (/),
      f_pow = (\<lambda>x n. Inr (x ^ n)), f_lt = (<), f_ge = (\<ge>),
      f_radians = radians, f_sin = (\<lambda>x. Inr (sin x)), f_cos = (\<lambda>x. Inr (cos x)),
      f_sqrt = py_sqrt, f_atan2 = atan2\<rparr>"

section \<open>Distance calculator\<close>

text \<open>
  The calls that can raise are made in the order in which Python evaluates the
  expression for \<open>a\<close>: \<open>sin(dlat / 2)\<close>, its square, \<open>cos(lat1)\<close>, \<open>cos(lat2)\<close>,
  \<open>sin(dlon / 2)\<close>, its square; then the two square roots.
\<close>

definition get_distance_between_locations ::
  "'f arith \<Rightarrow> 'f GPSREC \<Rightarrow> 'f GPSREC \<Rightarrow> error + 'f" where
  "get_distance_between_locations ar point1 point2 =
     (let lat1 = f_radians ar (latitude point1);
          lon1 = f_radians ar (longitude point1);
          lat2 = f_radians ar (latitude point2);
          lon2 = f_radians ar (longitude point2);
          dlat = f_sub ar lat2 lat1;
          dlon = f_sub ar lon2 lon1
      in case f_sin ar (f_div ar dlat (f_lit ar 2)) of Inl e \<Rightarrow> Inl e | Inr s1 \<Rightarrow>
        (case f_pow ar s1 2 of Inl e \<Rightarrow> Inl e | Inr t1 \<Rightarrow>
        (case f_cos ar lat1 of Inl e \<Rightarrow> Inl e | Inr c1 \<Rightarrow>
        (case f_cos ar lat2 of Inl e \<Rightarrow> Inl e | Inr c2 \<Rightarrow>
        (case f_sin ar (f_div ar dlon (f_lit ar 2)) of Inl e \<Rightarrow> Inl e | Inr s2 \<Rightarrow>
        (case f_pow ar s2 2 of Inl e \<Rightarrow> Inl e | Inr t2 \<Rightarrow>
          (let a = f_add ar t1 (f_mul ar (f_mul ar c1 c2) t2)
           in case f_sqrt ar a of Inl e \<Rightarrow> Inl e | Inr sa \<Rightarrow>
             (case f_sqrt ar (f_sub ar (f_lit ar 1) a) of Inl e \<Rightarrow> Inl e | Inr sb \<Rightarrow>
               (let c = f_mul ar (f_lit ar 2) (f_atan2 ar sa sb);
                    km_earth_radius = f_lit ar 6371;
                    distance = f_mul ar km_earth_radius c
                in Inr distance)))))))))"

section \<open>Deduplicator\<close>

text \<open>
  The dictionary \<open>coordinates\<close> maps a \<open>(longitude, latitude)\<close> pair to the retained
  record. A Python dictionary keeps its keys in the order of their first insertion and
  an assignment to a present key keeps the key's place: this is \<open>AList.update\<close> on an
  association list, and \<open>coordinates.values()\<close> is the list of second components.
\<close>

type_synonym 'f coordinates = "(('f \<times> 'f) \<times> addr) list"

definition coord_key :: "'f heap \<Rightarrow> addr \<Rightarrow> 'f \<times> 'f" where
  "coord_key h coord = (longitude (h coord), latitude (h coord))"

text \<open>
  \<open>abs(d1 - d2)\<close> for two times of the same day, in microseconds, and
  \<open>timedelta.total_seconds\<close>. The source combines both times with
  \<open>datetime.today()\<close>; the two calls are taken to fall on the same day.
\<close>

definition elapsed_time :: "nat \<Rightarrow> nat \<Rightarrow> nat" where
  "elapsed_time t1 t2 = (if t1 \<le> t2 then t2 - t1 else t1 - t2)"

definition total_seconds :: "nat \<Rightarrow> real" where
  "total_seconds us = real us / 1000000"

definition minimum_elapsed_time :: real where
  "minimum_elapsed_time = 120"

definition clean_step :: "'f heap \<Rightarrow> addr \<Rightarrow> 'f coordinates \<Rightarrow> 'f coordinates" where
  "clean_step h coord coordinates =
     (case map_of coordinates (coord_key h coord) of
        None \<Rightarrow> AList.update (coord_key h coord) coord coordinates
      | Some retained \<Rightarrow>
          (if total_seconds (elapsed_time (timestamp (h retained)) (timestamp (h coord)))
                > minimum_elapsed_time
           then AList.update (coord_key h coord) coord coordinates
           else coordinates))"

definition clean_gga_data :: "'f heap \<Rightarrow> addr list \<Rightarrow> addr list" where
  "clean_gga_data h data = map snd (fold (clean_step h) data [])"

section \<open>Uphill classifier\<close>

definition sort_by_timestamp :: "'f heap \<Rightarrow> addr \<Rightarrow> nat" where
  "sort_by_timestamp h r = timestamp (h r)"

definition point_to_point_elevation_threshold :: "'f arith \<Rightarrow> 'f" where
  "point_to_point_elevation_threshold ar = f_lit ar (3 / 10)"

definition significant_distance_of_elevation_threshold :: "'f arith \<Rightarrow> 'f" where
  "significant_distance_of_elevation_threshold ar = f_lit ar 10"

definition set_uphill :: "bool \<Rightarrow> addr \<Rightarrow> 'f heap \<Rightarrow> 'f heap" where
  "set_uphill b p h = h(p := (h p)\<lparr>uphill := b\<rparr>)"

subsection \<open>Pass 1: the first loop of \<open>detect_uphill\<close>\<close>

definition going_uphill :: "'f arith \<Rightarrow> 'f heap \<Rightarrow> addr list \<Rightarrow> nat \<Rightarrow> bool" where
  "going_uphill ar h d i =
     f_ge ar (f_sub ar (altitude (h (d ! (i + 1)))) (altitude (h (d ! i))))
       (point_to_point_elevation_threshold ar)"

definition flag_step :: "'f arith \<Rightarrow> nat \<Rightarrow> addr list \<Rightarrow> nat \<Rightarrow> 'f heap \<Rightarrow> 'f heap" where
  "flag_step ar n d i h =
     (if i + 1 < n
      then (if going_uphill ar h d i then set_uphill True (d ! i) h else h)
      else h)"

definition flag_ascents :: "'f arith \<Rightarrow> nat \<Rightarrow> addr list \<Rightarrow> 'f heap \<Rightarrow> 'f heap" where
  "flag_ascents ar n d h = fold (flag_step ar n d) [0..<n] h"

subsection \<open>Pass 2: the second loop of \<open>detect_uphill\<close>\<close>

text \<open>
  The loop state is the list \<open>segment\<close> and the store. The statement
  \<open>sorted(segment, key=sort_by_timestamp)\<close> of the source builds a sorted copy and drops
  it; it changes nothing and has no counterpart here. The loop has no statement after
  it: a segment that is still open when the scan ends is left as it is. An exception
  of the distance calculator ends the loop and the run.
\<close>

definition reset_segment :: "addr list \<Rightarrow> 'f heap \<Rightarrow> 'f heap" where
  "reset_segment segment h = fold (set_uphill False) segment h"

definition filter_step ::
  "'f arith \<Rightarrow> addr list \<Rightarrow> nat \<Rightarrow> addr list \<times> 'f heap \<Rightarrow> error + addr list \<times> 'f heap" where
  "filter_step ar d i st =
     (let segment = fst st; h = snd st in
      if uphill (h (d ! i)) then Inr (segment @ [d ! i], h)
      else if length segment = 0 then Inr (segment, h)
      else
        (let start_location = h (hd segment);
             end_location = h (last segment)
         in case get_distance_between_locations ar start_location end_location of
              Inl e \<Rightarrow> Inl e
            | Inr km \<Rightarrow>
                (let distance = f_mul ar km (f_lit ar 1000) in
                 Inr ([], if f_lt ar distance (significant_distance_of_elevation_threshold ar)
                          then reset_segment segment h else h))))"

fun filter_loop ::
  "'f arith \<Rightarrow> addr list \<Rightarrow> nat list \<Rightarrow> addr list \<times> 'f heap \<Rightarrow> error + addr list \<times> 'f heap" where
  "filter_loop ar d [] st = Inr st"
| "filter_loop ar d (i # is) st =
     (case filter_step ar d i st of
        Inl e \<Rightarrow> Inl e
      | Inr st' \<Rightarrow> filter_loop ar d is st')"

definition detect_uphill :: "'f arith \<Rightarrow> addr list \<Rightarrow> 'f heap \<Rightarrow> error + addr list \<times> 'f heap" where
  "detect_uphill ar data h =
     (let detecting_uphill_data = sort_key (sort_by_timestamp h) data;
          h1 = flag_ascents ar (length data) detecting_uphill_data h
      in case filter_loop ar detecting_uphill_data [0..<length detecting_uphill_data] ([], h1) of
           Inl e \<Rightarrow> Inl e
         | Inr st \<Rightarrow> Inr (detecting_uphill_data, snd st))"

section \<open>Notions used to state and prove the properties\<close>

subsection \<open>Distance\<close>

text \<open>
  Two points are a significant distance apart when the distance calculator returns a
  distance for them and the test \<open>distance < 10.0\<close> of the second loop, on that distance
  in metres, fails: the distance is not below the threshold of 10 metres.
\<close>

definition significant :: "'f arith \<Rightarrow> 'f GPSREC \<Rightarrow> 'f GPSREC \<Rightarrow> bool" where
  "significant ar start_location end_location =
     (case get_distance_between_locations ar start_location end_location of
        Inl e \<Rightarrow> False
      | Inr km \<Rightarrow>
          \<not> f_lt ar (f_mul ar km (f_lit ar 1000)) (significant_distance_of_elevation_threshold ar))"

text \<open>
  In exact arithmetic: the haversine term \<open>a\<close> of two points and the distance in
  kilometres computed from it.
\<close>

definition haversine_a :: "real GPSREC \<Rightarrow> real GPSREC \<Rightarrow> real" where
  "haversine_a p q =
     (sin ((radians (latitude q) - radians (latitude p)) / 2))\<^sup>2
     + cos (radians (latitude p)) * cos (radians (latitude q))
       * (sin ((radians (longitude q) - radians (longitude p)) / 2))\<^sup>2"

definition distance_km :: "real GPSREC \<Rightarrow> real GPSREC \<Rightarrow> real" where
  "distance_km p q = 6371 * (2 * atan2 (sqrt (haversine_a p q)) (sqrt (1 - haversine_a p q)))"

subsection \<open>Deduplicator\<close>

text \<open>
  The dictionary is well keyed: no key occurs twice and every record is stored under
  its own coordinate pair.
\<close>

definition keyed :: "'f heap \<Rightarrow> 'f coordinates \<Rightarrow> bool" where
  "keyed h cs = (distinct (map fst cs) \<and> (\<forall>p \<in> set cs. fst p = coord_key h (snd p)))"

subsection \<open>Pass 1\<close>

text \<open>
  \<open>ascent_from ar h d n k a\<close>: one of the first \<open>k\<close> iterations of the first loop flags
  the record at address \<open>a\<close>. \<open>flagged ar h d n k\<close> is the store after these \<open>k\<close>
  iterations.
\<close>

definition ascent_from ::
  "'f arith \<Rightarrow> 'f heap \<Rightarrow> addr list \<Rightarrow> nat \<Rightarrow> nat \<Rightarrow> addr \<Rightarrow> bool" where
  "ascent_from ar h d n k a = (\<exists>i<k. i + 1 < n \<and> d ! i = a \<and> going_uphill ar h d i)"

definition flagged :: "'f arith \<Rightarrow> 'f heap \<Rightarrow> addr list \<Rightarrow> nat \<Rightarrow> nat \<Rightarrow> 'f heap" where
  "flagged ar h d n k =
     (\<lambda>a. if ascent_from ar h d n k a then (h a)\<lparr>uphill := True\<rparr> else h a)"

subsection \<open>Pass 2\<close>

text \<open>
  What a flush does to the store, and the state after an iteration of the second loop
  that does not raise (\<open>filter_step_returns\<close> below).
\<close>

definition flush :: "'f arith \<Rightarrow> addr list \<Rightarrow> 'f heap \<Rightarrow> 'f heap" where
  "flush ar segment h =
     (if significant ar (h (hd segment)) (h (last segment)) then h
      else reset_segment segment h)"

definition scan_next ::
  "'f arith \<Rightarrow> addr list \<Rightarrow> nat \<Rightarrow> addr list \<times> 'f heap \<Rightarrow> addr list \<times> 'f heap" where
  "scan_next ar d i st =
     (if uphill (snd st (d ! i)) then (fst st @ [d ! i], snd st)
      else if fst st = [] then st
      else ([], flush ar (fst st) (snd st)))"

text \<open>
  \<open>lowers_in d h h'\<close>: the store \<open>h'\<close> is \<open>h\<close> except that the flag of some records of
  \<open>d\<close> has been reset.
\<close>

definition lowers_in :: "addr list \<Rightarrow> 'f heap \<Rightarrow> 'f heap \<Rightarrow> bool" where
  "lowers_in d h h' = (\<forall>a. h' a = h a \<or> (a \<in> set d \<and> h' a = (h a)\<lparr>uphill := False\<rparr>))"

text \<open>
  A closed run \<open>lo..hi\<close> below position \<open>s\<close>: all its records are flagged, the record
  before it (if any) and the record after it are not, and its first and last record
  are a significant distance apart.
\<close>

definition closed_run ::
  "'f arith \<Rightarrow> 'f heap \<Rightarrow> addr list \<Rightarrow> nat \<Rightarrow> nat \<Rightarrow> nat \<Rightarrow> bool" where
  "closed_run ar h d s lo hi =
     (lo \<le> hi \<and> hi + 1 < s
      \<and> (\<forall>j. lo \<le> j \<and> j \<le> hi \<longrightarrow> uphill (h (d ! j)))
      \<and> (lo = 0 \<or> \<not> uphill (h (d ! (lo - 1))))
      \<and> \<not> uphill (h (d ! (hi + 1)))
      \<and> significant ar (h (d ! lo)) (h (d ! hi)))"

text \<open>
  The invariant of the second loop after \<open>k\<close> iterations, for a list \<open>d\<close> of distinct
  addresses: the open segment is the block \<open>s..<k\<close> of \<open>d\<close>, all of it flagged and with
  an unflagged record before it, and every flagged record below \<open>s\<close> lies in a closed
  run.
\<close>

definition scan_inv ::
  "'f arith \<Rightarrow> addr list \<Rightarrow> nat \<Rightarrow> nat \<Rightarrow> addr list \<times> 'f heap \<Rightarrow> bool" where
  "scan_inv ar d k s st =
     (s \<le> k \<and> fst st = map ((!) d) [s..<k]
      \<and> (\<forall>j. s \<le> j \<and> j < k \<longrightarrow> uphill (snd st (d ! j)))
      \<and> (s = 0 \<or> \<not> uphill (snd st (d ! (s - 1))))
      \<and> (\<forall>i<s. uphill (snd st (d ! i))
            \<longrightarrow> (\<exists>lo hi. lo \<le> i \<and> i \<le> hi \<and> closed_run ar (snd st) d s lo hi)))"


subsection \<open>Example tracks\<close>

text \<open>
  Records on the meridian of longitude \<open>0\<close>, and the store that holds the records of a
  list at the addresses \<open>0, 1, 2, ...\<close>. One degree of latitude is about 111 km, and
  \<open>1 / 100000\<close> of a degree about 1.1 m.
\<close>

definition meridian_fix :: "nat \<Rightarrow> real \<Rightarrow> real \<Rightarrow> bool \<Rightarrow> real GPSREC" where
  "meridian_fix t lat alt up =
     \<lparr>timestamp = t, longitude = 0, latitude = lat, altitude = alt, uphill = up\<rparr>"

definition store_of :: "real GPSREC list \<Rightarrow> real heap" where
  "store_of rs a = (if a < length rs then rs ! a else meridian_fix 0 0 0 False)"

text \<open>Three records with the altitudes 0, 1, 2.\<close>

definition three_point_track :: "real heap" where
  "three_point_track = store_of
     [meridian_fix 0 0 0 False, meridian_fix 1 1 1 False, meridian_fix 2 2 2 False]"

text \<open>Four records one degree apart with the altitudes 0, 1, 2, 2.\<close>

definition ascent_track :: "real heap" where
  "ascent_track = store_of
     [meridian_fix 0 0 0 False, meridian_fix 1 1 1 False,
      meridian_fix 2 2 2 False, meridian_fix 3 3 2 False]"

text \<open>
  The same altitudes, but the third record is about a metre from the first and is
  constructed with \<open>uphill=True\<close>.
\<close>

definition preflagged_track :: "real heap" where
  "preflagged_track = store_of
     [meridian_fix 0 0 0 False, meridian_fix 1 1 1 False,
      meridian_fix 2 (1 / 100000) 2 True, meridian_fix 3 3 2 False]"

text \<open>
  Two records about a metre apart, the later one constructed with \<open>uphill=True\<close>; and
  the same two records followed by a third one that is not flagged.
\<close>

definition trailing_track :: "real heap" where
  "trailing_track = store_of [meridian_fix 0 0 0 False, meridian_fix 1 (1 / 100000) 1 True]"

definition bounded_track :: "real heap" where
  "bounded_track = store_of
     [meridian_fix 0 0 0 False, meridian_fix 1 (1 / 100000) 1 True,
      meridian_fix 2 (2 / 100000) 1 False]"

text \<open>
  Two records at the same coordinates, 120 seconds apart and 120.000001 seconds apart.
\<close>

definition within_window :: "real heap" where
  "within_window = store_of [meridian_fix 0 0 0 False, meridian_fix 120000000 0 5 False]"

definition beyond_window :: "real heap" where
  "beyond_window = store_of [meridian_fix 0 0 0 False, meridian_fix 120000001 0 5 False]"

section \<open>The distance calculator in exact arithmetic\<close>

lemma cos_product_bounds:
  fixes u v :: real
  shows "- (sin ((v - u) / 2))\<^sup>2 \<le> cos u * cos v" and "cos u * cos v \<le> (cos ((v - u) / 2))\<^sup>2"
proof -
  have prod: "cos u * cos v = (cos (v - u) + cos (u + v)) / 2"
    using cos_times_cos [of v u] by (simp add: mult.commute add.commute)
  have e: "2 * ((v - u) / 2) = v - u"
    by simp
  have d1: "cos (v - u) = 1 - 2 * (sin ((v - u) / 2))\<^sup>2"
    using cos_double_sin [of "(v - u) / 2"] unfolding e .
  have d2: "cos (v - u) = 2 * (cos ((v - u) / 2))\<^sup>2 - 1"
    using cos_double_cos [of "(v - u) / 2"] unfolding e .
  have lo: "- 1 \<le> cos (u + v)" and hi: "cos (u + v) \<le> 1"
    by simp_all
  show "- (sin ((v - u) / 2))\<^sup>2 \<le> cos u * cos v"
    using prod d1 lo by argo
  show "cos u * cos v \<le> (cos ((v - u) / 2))\<^sup>2"
    using prod d2 hi by argo
qed

lemma haversine_a_nonneg: "0 \<le> haversine_a p q"
proof -
  define s where "s = (sin ((radians (latitude q) - radians (latitude p)) / 2))\<^sup>2"
  define t where "t = (sin ((radians (longitude q) - radians (longitude p)) / 2))\<^sup>2"
  define k where "k = cos (radians (latitude p)) * cos (radians (latitude q))"
  have a: "haversine_a p q = s + k * t"
    by (simp add: haversine_a_def s_def t_def k_def)
  have s0: "0 \<le> s" and t0: "0 \<le> t" and t1: "t \<le> 1"
    by (simp_all add: s_def t_def abs_square_le_1)
  have k: "- s \<le> k"
    unfolding s_def k_def by (rule cos_product_bounds(1))
  have "- s * t \<le> k * t"
    by (rule mult_right_mono [OF k t0])
  moreover have "s * t \<le> s"
    using s0 t1 by (simp add: mult_left_le)
  ultimately show ?thesis
    unfolding a by linarith
qed

lemma haversine_a_le_one: "haversine_a p q \<le> 1"
proof -
  define s where "s = (sin ((radians (latitude q) - radians (latitude p)) / 2))\<^sup>2"
  define c where "c = (cos ((radians (latitude q) - radians (latitude p)) / 2))\<^sup>2"
  define t where "t = (sin ((radians (longitude q) - radians (longitude p)) / 2))\<^sup>2"
  define k where "k = cos (radians (latitude p)) * cos (radians (latitude q))"
  have a: "haversine_a p q = s + k * t"
    by (simp add: haversine_a_def s_def t_def k_def)
  have sc: "s + c = 1"
    by (simp add: s_def c_def)
  have c0: "0 \<le> c" and t0: "0 \<le> t" and t1: "t \<le> 1"
    by (simp_all add: c_def t_def abs_square_le_1)
  have k: "k \<le> c"
    unfolding c_def k_def by (rule cos_product_bounds(2))
  have "k * t \<le> c * t"
    by (rule mult_right_mono [OF k t0])
  moreover have "c * t \<le> c"
    using c0 t1 by (simp add: mult_left_le)
  ultimately show ?thesis
    unfolding a using sc by linarith
qed

text \<open>
  In exact arithmetic the haversine term lies between 0 and 1, so neither square root
  raises and the distance calculator always returns. This is a fact about real numbers
  only: in double precision the computed term can exceed 1 by a rounding error when the
  two points are nearly antipodal, and \<open>math.sqrt(1 - a)\<close> raises \<open>ValueError\<close> there.
  For the program the claim of no error cases (C6) therefore fails; in the model the
  raise is the \<open>Inl\<close> result of \<open>f_sqrt\<close>, and the properties of the classifier below are
  stated for runs that return.
\<close>

lemma get_distance_total:
  "get_distance_between_locations exact p q = Inr (distance_km p q)"
  using haversine_a_nonneg [of p q] haversine_a_le_one [of p q]
  by (simp add: get_distance_between_locations_def exact_def Let_def py_sqrt_def
      distance_km_def haversine_a_def)

lemma haversine_a_sym: "haversine_a p q = haversine_a q p"
proof -
  have "sin ((x - y) / 2) ^ 2 = sin ((y - x) / 2) ^ 2" for x y :: real
  proof -
    have "(x - y) / 2 = - ((y - x) / 2)" by argo
    then have "sin ((x - y) / 2) = - sin ((y - x) / 2)"
      by (metis sin_minus)
    then show ?thesis by simp
  qed
  then show ?thesis
    by (simp add: haversine_a_def mult.commute)
qed

lemma haversine_a_same: "haversine_a p p = 0"
  by (simp add: haversine_a_def)

lemma distance_km_same: "distance_km p p = 0"
  by (simp add: distance_km_def haversine_a_same atan2_def)

text \<open>
  Claim C9. For all records \<open>p\<close> and \<open>q\<close> the distance calculator, in exact arithmetic,
  gives the same result for \<open>(p, q)\<close> and for \<open>(q, p)\<close>, and the distance from a point
  to itself is \<open>0\<close>.
\<close>

theorem distance_symmetric_and_zero:
  "get_distance_between_locations exact p q = get_distance_between_locations exact q p
   \<and> get_distance_between_locations exact p p = Inr 0"
  by (simp add: get_distance_total distance_km_def haversine_a_sym [of p q] distance_km_same
      haversine_a_same atan2_def)

subsection \<open>Points on one meridian\<close>

lemma exact_ops:
  "f_lit exact x = x" "f_add exact = (+)" "f_sub exact = (-)" "f_mul exact = (*)"
  "f_div exact = (/)" "f_lt exact = (<)" "f_ge exact = (\<ge>)"
  by (simp_all add: exact_def)

lemma significant_iff: "significant exact p q \<longleftrightarrow> 10 \<le> distance_km p q * 1000"
  by (simp add: significant_def get_distance_total exact_ops
      significant_distance_of_elevation_threshold_def not_less)

lemma distance_km_meridian:
  assumes lon: "longitude p = longitude q"
    and le: "latitude p \<le> latitude q" and lt: "latitude q - latitude p < 180"
  shows "distance_km p q = 6371 * radians (latitude q - latitude p)"
proof -
  define x where "x = (radians (latitude q) - radians (latitude p)) / 2"
  have x: "x = radians (latitude q - latitude p) / 2"
    by (simp add: x_def radians_def field_simps)
  have x0: "0 \<le> x"
    using le by (simp add: x radians_def)
  have "(latitude q - latitude p) * pi < 180 * pi"
    using lt by simp
  then have x1: "x < pi / 2"
    by (simp add: x radians_def)
  have a: "haversine_a p q = (sin x)\<^sup>2"
    by (simp add: haversine_a_def lon x_def)
  have s: "0 \<le> sin x"
    using x0 x1 by (intro sin_ge_zero) simp_all
  have c: "0 < cos x"
    using x0 x1 by (intro cos_gt_zero_pi) simp_all
  have sq: "sqrt (haversine_a p q) = sin x"
    using s by (simp add: a)
  have "1 - haversine_a p q = (cos x)\<^sup>2"
    by (simp add: a cos_squared_eq)
  then have cq: "sqrt (1 - haversine_a p q) = cos x"
    using c by simp
  have "atan2 (sin x) (cos x) = arctan (tan x)"
    using c by (simp add: atan2_def tan_def)
  also have "\<dots> = x"
    using x0 x1 by (intro arctan_tan) simp_all
  finally show ?thesis
    by (simp add: distance_km_def sq cq x)
qed

lemma significant_far:
  assumes "longitude p = longitude q" and "latitude p + 1 / 100 \<le> latitude q"
    and "latitude q - latitude p < 180"
  shows "significant exact p q"
proof -
  have le: "latitude p \<le> latitude q"
    using assms(2) by simp
  define y where "y = (latitude q - latitude p) * pi"
  have d: "distance_km p q * 1000 = 6371000 / 180 * y"
    by (simp add: distance_km_meridian [OF assms(1) le assms(3)] radians_def y_def)
  have "1 / 100 * 2 \<le> y"
    unfolding y_def by (rule mult_mono) (use assms(2) pi_ge_two in simp_all)
  then show ?thesis
    unfolding significant_iff d by linarith
qed

lemma significant_near:
  assumes "longitude p = longitude q" and "latitude p \<le> latitude q"
    and "latitude q \<le> latitude p + 1 / 100000"
  shows "\<not> significant exact p q"
proof -
  have lt: "latitude q - latitude p < 180"
    using assms(3) by simp
  define y where "y = (latitude q - latitude p) * pi"
  have d: "distance_km p q * 1000 = 6371000 / 180 * y"
    by (simp add: distance_km_meridian [OF assms(1,2) lt] radians_def y_def)
  have "y \<le> 1 / 100000 * 4"
    unfolding y_def by (rule mult_mono) (use assms(2,3) pi_less_4 in simp_all)
  then show ?thesis
    unfolding significant_iff d by linarith
qed

section \<open>Properties of the deduplicator\<close>

lemma set_update_subset: "set (AList.update k v al) \<subseteq> insert (k, v) (set al)"
  by (induction al) auto

lemma keyed_update: "keyed h cs \<Longrightarrow> keyed h (AList.update (coord_key h c) c cs)"
  unfolding keyed_def using set_update_subset [of "coord_key h c" c cs]
  by (auto simp: distinct_update)

lemma keyed_step: "keyed h cs \<Longrightarrow> keyed h (clean_step h c cs)"
  by (simp add: clean_step_def keyed_update split: option.splits)

lemma keyed_fold: "keyed h cs \<Longrightarrow> keyed h (fold (clean_step h) data cs)"
  by (induction data arbitrary: cs) (simp_all add: keyed_step)

lemma keyed_keys: "keyed h cs \<Longrightarrow> map (coord_key h) (map snd cs) = map fst cs"
  by (simp add: keyed_def)

text \<open>
  Claim C5. For every input sequence the output of the deduplicator holds at most one
  record per \<open>(longitude, latitude)\<close> pair: the coordinate pairs of the output are
  pairwise different. The empty input gives the empty output.
\<close>

theorem dedup_unique:
  "distinct (map (coord_key h) (clean_gga_data h data)) \<and> clean_gga_data h [] = []"
proof -
  have k: "keyed h (fold (clean_step h) data [])"
    by (rule keyed_fold) (simp add: keyed_def)
  have e: "map (coord_key h) (clean_gga_data h data) = map fst (fold (clean_step h) data [])"
    unfolding clean_gga_data_def by (rule keyed_keys [OF k])
  have d: "distinct (map fst (fold (clean_step h) data []))"
    using k by (simp add: keyed_def)
  have "distinct (map (coord_key h) (clean_gga_data h data))"
    unfolding e by (rule d)
  moreover have "clean_gga_data h [] = []"
    by (simp add: clean_gga_data_def)
  ultimately show ?thesis
    by (rule conjI)
qed

text \<open>
  The output of the deduplicator is a list of distinct record objects taken from its
  input: the lists the classifier is run on in the pipeline have no object twice.
\<close>

lemma clean_gga_data_distinct: "distinct (clean_gga_data h data)"
proof -
  have k: "keyed h (fold (clean_step h) data [])"
    by (rule keyed_fold) (simp add: keyed_def)
  have "distinct (map fst (fold (clean_step h) data []))"
    using k by (simp add: keyed_def)
  then have "distinct (map (coord_key h) (clean_gga_data h data))"
    unfolding clean_gga_data_def keyed_keys [OF k] .
  then show ?thesis
    by (simp add: distinct_map)
qed

lemma clean_step_subset:
  "snd ` set (clean_step h c cs) \<subseteq> insert c (snd ` set cs)"
proof -
  have "snd ` set (AList.update k c cs) \<subseteq> insert c (snd ` set cs)" for k
    using set_update_subset [of k c cs] by auto
  then show ?thesis
    by (auto simp add: clean_step_def split: option.splits)
qed

lemma clean_fold_subset:
  "snd ` set (fold (clean_step h) data cs) \<subseteq> set data \<union> snd ` set cs"
proof (induction data arbitrary: cs)
  case Nil
  show ?case by simp
next
  case (Cons c data)
  from Cons.IH [of "clean_step h c cs"] clean_step_subset [of h c cs]
  show ?case by auto
qed

lemma clean_gga_data_subset: "set (clean_gga_data h data) \<subseteq> set data"
  using clean_fold_subset [of h data "[]"] by (simp add: clean_gga_data_def)

lemma elapsed_time_abs: "int (elapsed_time t1 t2) = \<bar>int t1 - int t2\<bar>"
  by (simp add: elapsed_time_def)

lemma over_window_iff:
  "total_seconds (elapsed_time t1 t2) > minimum_elapsed_time
     \<longleftrightarrow> \<bar>int t1 - int t2\<bar> > 120 * 1000000"
proof -
  have "total_seconds (elapsed_time t1 t2) > minimum_elapsed_time
          \<longleftrightarrow> elapsed_time t1 t2 > 120 * 1000000"
    by (simp add: total_seconds_def minimum_elapsed_time_def field_simps)
  also have "\<dots> \<longleftrightarrow> int (elapsed_time t1 t2) > 120 * 1000000"
    by linarith
  finally show ?thesis by (simp only: elapsed_time_abs)
qed

text \<open>
  Claim C4. Time differences are in microseconds, so 120 seconds are \<open>120 * 1000000\<close>.
  When the dictionary holds the record \<open>retained\<close> under the coordinate pair of the
  incoming record \<open>coord\<close>: if the absolute difference of their timestamps is at most
  120 seconds the dictionary is unchanged (the retained record is kept, the new one is
  dropped); if it exceeds 120 seconds the new record takes the place of the retained
  one, under the same key and at the same position, and nothing else changes.
  In particular, for an input of two records with the same coordinates the output is
  the first record when they are at most 120 seconds apart and the second one
  otherwise.
\<close>

theorem dedup_retention:
  "(map_of coordinates (coord_key h coord) = Some retained \<longrightarrow>
      (\<bar>int (timestamp (h retained)) - int (timestamp (h coord))\<bar> \<le> 120 * 1000000
         \<longrightarrow> clean_step h coord coordinates = coordinates)
    \<and> (\<bar>int (timestamp (h retained)) - int (timestamp (h coord))\<bar> > 120 * 1000000
         \<longrightarrow> clean_step h coord coordinates = AList.update (coord_key h coord) coord coordinates
           \<and> map_of (clean_step h coord coordinates)
               = (map_of coordinates)(coord_key h coord \<mapsto> coord)
           \<and> map fst (clean_step h coord coordinates) = map fst coordinates))
   \<and> (coord_key h first = coord_key h second \<longrightarrow>
        clean_gga_data h [first, second]
          = (if \<bar>int (timestamp (h first)) - int (timestamp (h second))\<bar> \<le> 120 * 1000000
             then [first] else [second]))"
proof -
  have A: "clean_step h coord coordinates = coordinates"
    if "map_of coordinates (coord_key h coord) = Some retained"
      and "\<bar>int (timestamp (h retained)) - int (timestamp (h coord))\<bar> \<le> 120 * 1000000"
    using that over_window_iff [of "timestamp (h retained)" "timestamp (h coord)"]
    by (simp add: clean_step_def)
  have B: "clean_step h coord coordinates = AList.update (coord_key h coord) coord coordinates"
    if "map_of coordinates (coord_key h coord) = Some retained"
      and "\<bar>int (timestamp (h retained)) - int (timestamp (h coord))\<bar> > 120 * 1000000"
    using that over_window_iff [of "timestamp (h retained)" "timestamp (h coord)"]
    by (simp add: clean_step_def)
  have C: "map fst (AList.update (coord_key h coord) coord coordinates) = map fst coordinates"
    if "map_of coordinates (coord_key h coord) = Some retained"
    using that by (simp add: AList.update_keys domI dom_map_of_conv_image_fst [symmetric])
  have D: "clean_gga_data h [first, second]
          = (if \<bar>int (timestamp (h first)) - int (timestamp (h second))\<bar> \<le> 120 * 1000000
             then [first] else [second])"
    if "coord_key h first = coord_key h second"
    using that over_window_iff [of "timestamp (h first)" "timestamp (h second)"]
    by (auto simp add: clean_gga_data_def clean_step_def)
  show ?thesis
    using A B C D by (simp add: AList.update_conv')
qed

text \<open>
  The two cases at concrete inputs: two records at the same place exactly 120 seconds
  apart (the first one is retained, in the dictionary and in the output), and the same
  records 120.000001 seconds apart (the second one replaces the first).
\<close>

theorem dedup_retention_witness:
  "clean_step within_window 1 [((0, 0), 0)] = [((0, 0), 0)]
   \<and> clean_gga_data within_window [0, 1] = [0]
   \<and> clean_step beyond_window 1 [((0, 0), 0)] = [((0, 0), 1)]
   \<and> clean_gga_data beyond_window [0, 1] = [1]"
proof -
  have k: "coord_key within_window 0 = (0, 0)" "coord_key within_window (Suc 0) = (0, 0)"
    "coord_key beyond_window 0 = (0, 0)" "coord_key beyond_window (Suc 0) = (0, 0)"
    by (simp_all add: coord_key_def within_window_def beyond_window_def store_of_def
        meridian_fix_def)
  have t: "timestamp (within_window 0) = 0" "timestamp (within_window (Suc 0)) = 120000000"
    "timestamp (beyond_window 0) = 0" "timestamp (beyond_window (Suc 0)) = 120000001"
    by (simp_all add: within_window_def beyond_window_def store_of_def meridian_fix_def)
  from dedup_retention [of "[((0, 0), 0)]" within_window 1 0 0 1]
  have w: "clean_step within_window 1 [((0, 0), 0)] = [((0, 0), 0)]
     \<and> clean_gga_data within_window [0, 1] = [0]"
    by (simp add: k t)
  from dedup_retention [of "[((0, 0), 0)]" beyond_window 1 0 0 1]
  have b: "clean_step beyond_window 1 [((0, 0), 0)] = [((0, 0), 1)]
     \<and> clean_gga_data beyond_window [0, 1] = [1]"
    by (simp add: k t)
  from w b show ?thesis
    by simp
qed

section \<open>Pass 1 sets the flag exactly at the ascents\<close>

lemma going_uphill_flagged: "going_uphill ar (flagged ar h d n k) d i = going_uphill ar h d i"
  by (simp add: going_uphill_def flagged_def)

lemma ascent_from_Suc:
  "ascent_from ar h d n (Suc k) a \<longleftrightarrow> ascent_from ar h d n k a \<or> (k + 1 < n \<and> d ! k = a \<and> going_uphill ar h d k)"
  by (auto simp: ascent_from_def less_Suc_eq)

lemma flag_step_flagged: "flag_step ar n d k (flagged ar h d n k) = flagged ar h d n (Suc k)"
proof (rule ext)
  fix a
  show "flag_step ar n d k (flagged ar h d n k) a = flagged ar h d n (Suc k) a"
    unfolding flag_step_def going_uphill_flagged
    by (auto simp add: set_uphill_def ascent_from_Suc flagged_def)
qed

lemma fold_flag_step: "fold (flag_step ar n d) [0..<k] h = flagged ar h d n k"
proof (induction k)
  case 0
  show ?case by (simp add: flagged_def ascent_from_def)
next
  case (Suc k)
  then show ?case by (simp add: flag_step_flagged)
qed

lemma flag_ascents_eq: "flag_ascents ar n d h = flagged ar h d n n"
  by (simp add: flag_ascents_def fold_flag_step)

section \<open>Pass 2 closes the runs\<close>

lemma reset_segment_eq:
  "reset_segment segment h = (\<lambda>a. if a \<in> set segment then (h a)\<lparr>uphill := False\<rparr> else h a)"
  unfolding reset_segment_def
proof (induction segment arbitrary: h)
  case Nil
  show ?case by simp
next
  case (Cons p ps)
  show ?case
    unfolding fold_simps Cons.IH
    by (rule ext) (simp add: set_uphill_def)
qed

text \<open>
  An iteration of the second loop that does not raise leaves the state \<open>scan_next\<close>; in
  exact arithmetic no iteration raises.
\<close>

lemma filter_step_returns:
  assumes "filter_step ar d i st = Inr st'"
  shows "st' = scan_next ar d i st"
proof (cases "uphill (snd st (d ! i)) \<or> fst st = []")
  case True
  with assms show ?thesis
    by (auto simp add: filter_step_def scan_next_def Let_def prod_eq_iff)
next
  case False
  with assms obtain km where
    km: "get_distance_between_locations ar (snd st (hd (fst st))) (snd st (last (fst st))) = Inr km"
    by (auto simp add: filter_step_def Let_def split: sum.splits)
  with assms False show ?thesis
    by (auto simp add: filter_step_def scan_next_def flush_def significant_def Let_def)
qed

lemma filter_step_exact: "filter_step exact d i st = Inr (scan_next exact d i st)"
proof -
  obtain st' where "filter_step exact d i st = Inr st'"
    by (cases "filter_step exact d i st")
      (auto simp add: filter_step_def Let_def get_distance_total split: if_splits)
  with filter_step_returns [OF this] show ?thesis
    by simp
qed

lemma closed_run_mono:
  assumes "closed_run ar h d s lo hi" and "s \<le> s'" and "\<forall>j<s. h' (d ! j) = h (d ! j)"
  shows "closed_run ar h' d s' lo hi"
proof -
  have same: "h' (d ! j) = h (d ! j)" if "j < s" for j
    using assms(3) that by simp
  from assms(1) have b: "lo \<le> hi" "hi + 1 < s"
    by (simp_all add: closed_run_def)
  then have "lo - Suc 0 < s"
    by linarith
  then have l: "h' (d ! (lo - Suc 0)) = h (d ! (lo - Suc 0))"
    by (rule same)
  show ?thesis
    using assms(1,2) by (simp add: closed_run_def same l)
qed

lemma nth_in_block:
  assumes "distinct d" and "j < length d" and "k \<le> length d"
  shows "d ! j \<in> set (map ((!) d) [s..<k]) \<longleftrightarrow> s \<le> j \<and> j < k"
proof
  assume "d ! j \<in> set (map ((!) d) [s..<k])"
  then obtain i where i: "s \<le> i" "i < k" "d ! i = d ! j"
    by auto
  then have "i = j"
    using assms by (simp add: nth_eq_iff_index_eq)
  then show "s \<le> j \<and> j < k"
    using i by simp
next
  assume "s \<le> j \<and> j < k"
  then show "d ! j \<in> set (map ((!) d) [s..<k])"
    by auto
qed

lemma block_hd_last:
  assumes "s < k"
  shows "hd (map ((!) d) [s..<k]) = d ! s" and "last (map ((!) d) [s..<k]) = d ! (k - 1)"
proof -
  have ne: "[s..<k] \<noteq> []"
    using assms by simp
  show "hd (map ((!) d) [s..<k]) = d ! s"
    using assms by (simp add: hd_map [OF ne])
  show "last (map ((!) d) [s..<k]) = d ! (k - 1)"
    using assms by (simp add: last_map [OF ne])
qed

lemma filter_loop_returns:
  "filter_loop ar d idxs st = Inr st' \<Longrightarrow> st' = fold (scan_next ar d) idxs st"
proof (induction idxs arbitrary: st)
  case Nil
  then show ?case by simp
next
  case (Cons i idxs)
  from Cons.prems obtain st1 where
    s1: "filter_step ar d i st = Inr st1" and r: "filter_loop ar d idxs st1 = Inr st'"
    by (auto split: sum.splits)
  from filter_step_returns [OF s1] Cons.IH [OF r] show ?case
    by simp
qed

lemma filter_loop_exact: "filter_loop exact d idxs st = Inr (fold (scan_next exact d) idxs st)"
  by (induction idxs arbitrary: st) (simp_all add: filter_step_exact)

lemma scan_step:
  assumes inv: "scan_inv ar d k s st" and dist: "distinct d" and k: "k < length d"
  shows "\<exists>s'. scan_inv ar d (Suc k) s' (scan_next ar d k st)"
proof -
  obtain segment h where st: "st = (segment, h)"
    by (cases st)
  from inv have sk: "s \<le> k"
    and seg: "segment = map ((!) d) [s..<k]"
    and fl: "\<And>j. s \<le> j \<Longrightarrow> j < k \<Longrightarrow> uphill (h (d ! j))"
    and bd: "s = 0 \<or> \<not> uphill (h (d ! (s - 1)))"
    and cl: "\<And>i. i < s \<Longrightarrow> uphill (h (d ! i)) \<Longrightarrow> \<exists>lo hi. lo \<le> i \<and> i \<le> hi \<and> closed_run ar h d s lo hi"
    by (simp_all add: scan_inv_def st)
  have old: "\<exists>lo hi. lo \<le> i \<and> i \<le> hi \<and> closed_run ar h' d (Suc k) lo hi"
    if "i < s" and "uphill (h (d ! i))" and "\<forall>j<s. h' (d ! j) = h (d ! j)" for i h'
  proof -
    from cl [OF that(1,2)] obtain lo hi where r: "lo \<le> i" "i \<le> hi" "closed_run ar h d s lo hi"
      by blast
    have "closed_run ar h' d (Suc k) lo hi"
      by (rule closed_run_mono [OF r(3) _ that(3)]) (use sk in simp)
    with r show ?thesis by blast
  qed
  show ?thesis
  proof (cases "uphill (h (d ! k))")
    case True
    have "scan_inv ar d (Suc k) s (segment @ [d ! k], h)"
      unfolding scan_inv_def
    proof (intro conjI allI impI)
      show "s \<le> Suc k" using sk by simp
      show "fst (segment @ [d ! k], h) = map ((!) d) [s..<Suc k]"
        using sk by (simp add: seg)
      show "uphill (snd (segment @ [d ! k], h) (d ! j))" if "s \<le> j \<and> j < Suc k" for j
        using that fl [of j] True by (cases "j = k") simp_all
      show "s = 0 \<or> \<not> uphill (snd (segment @ [d ! k], h) (d ! (s - 1)))"
        using bd by simp
      show "\<exists>lo hi. lo \<le> i \<and> i \<le> hi \<and> closed_run ar (snd (segment @ [d ! k], h)) d s lo hi"
        if "i < s" and "uphill (snd (segment @ [d ! k], h) (d ! i))" for i
        using that cl [of i] by simp
    qed
    then show ?thesis
      using True by (auto simp add: scan_next_def st)
  next
    case False
    note low = False
    show ?thesis
    proof (cases "segment = []")
      case True
      then have sk': "s = k"
        using sk seg by auto
      have "scan_inv ar d (Suc k) (Suc k) (segment, h)"
        unfolding scan_inv_def
      proof (intro conjI allI impI)
        show "Suc k \<le> Suc k" by simp
        show "fst (segment, h) = map ((!) d) [Suc k..<Suc k]"
          using True by simp
        show "uphill (snd (segment, h) (d ! j))" if "Suc k \<le> j \<and> j < Suc k" for j
          using that by auto
        show "Suc k = 0 \<or> \<not> uphill (snd (segment, h) (d ! (Suc k - 1)))"
          using low by simp
        show "\<exists>lo hi. lo \<le> i \<and> i \<le> hi \<and> closed_run ar (snd (segment, h)) d (Suc k) lo hi"
          if "i < Suc k" and "uphill (snd (segment, h) (d ! i))" for i
        proof -
          from that low have "i < s"
            unfolding sk' by (cases "i = k") simp_all
          then show ?thesis
            using old [of i h] that by simp
        qed
      qed
      then show ?thesis
        using low True by (auto simp add: scan_next_def st)
    next
      case False
      then have lt: "s < k"
        using sk seg by (cases "s = k") simp_all
      have ends: "hd segment = d ! s" "last segment = d ! (k - 1)"
        unfolding seg using block_hd_last [OF lt] by simp_all
      have next_eq: "scan_next ar d k st = ([], flush ar segment h)"
        using low False by (simp add: scan_next_def st)
      show ?thesis
      proof (cases "significant ar (h (d ! s)) (h (d ! (k - 1)))")
        case True
        then have fh: "flush ar segment h = h"
          by (simp add: flush_def ends)
        have "scan_inv ar d (Suc k) (Suc k) ([], h)"
          unfolding scan_inv_def
        proof (intro conjI allI impI)
          show "Suc k \<le> Suc k" by simp
          show "fst ([], h) = map ((!) d) [Suc k..<Suc k]" by simp
          show "uphill (snd ([], h) (d ! j))" if "Suc k \<le> j \<and> j < Suc k" for j
            using that by auto
          show "Suc k = 0 \<or> \<not> uphill (snd ([], h) (d ! (Suc k - 1)))"
            using low by simp
          show "\<exists>lo hi. lo \<le> i \<and> i \<le> hi \<and> closed_run ar (snd ([], h)) d (Suc k) lo hi"
            if "i < Suc k" and "uphill (snd ([], h) (d ! i))" for i
          proof (cases "i < s")
            case True
            then show ?thesis
              using old [of i h] that by simp
          next
            case False
            with that low have i: "s \<le> i" "i \<le> k - 1"
              by (cases "i = k"; simp)+
            have "closed_run ar h d (Suc k) s (k - 1)"
              unfolding closed_run_def
            proof (intro conjI allI impI)
              show "s \<le> k - 1" using lt by simp
              show "k - 1 + 1 < Suc k" using lt by simp
              show "uphill (h (d ! j))" if "s \<le> j \<and> j \<le> k - 1" for j
                using that lt by (intro fl) auto
              show "s = 0 \<or> \<not> uphill (h (d ! (s - 1)))" by (rule bd)
              show "\<not> uphill (h (d ! (k - 1 + 1)))" using low lt by simp
              show "significant ar (h (d ! s)) (h (d ! (k - 1)))" by (rule True)
            qed
            with i show ?thesis
              by auto
          qed
        qed
        then show ?thesis
          by (auto simp add: next_eq fh)
      next
        case False
        then have fh: "flush ar segment h = reset_segment segment h"
          by (simp add: flush_def ends)
        define h' where "h' = reset_segment segment h"
        have h'_in: "\<not> uphill (h' (d ! j))" if "s \<le> j" and "j < k" for j
        proof -
          have "d ! j \<in> set segment"
            unfolding seg using that k by (subst nth_in_block [OF dist]) simp_all
          then show ?thesis
            by (simp add: h'_def reset_segment_eq)
        qed
        have h'_out: "h' (d ! j) = h (d ! j)" if "j < s \<or> j = k" for j
        proof -
          have "d ! j \<notin> set segment"
            unfolding seg using that k sk by (subst nth_in_block [OF dist]) auto
          then show ?thesis
            by (simp add: h'_def reset_segment_eq)
        qed
        have "scan_inv ar d (Suc k) (Suc k) ([], h')"
          unfolding scan_inv_def
        proof (intro conjI allI impI)
          show "Suc k \<le> Suc k" by simp
          show "fst ([], h') = map ((!) d) [Suc k..<Suc k]" by simp
          show "uphill (snd ([], h') (d ! j))" if "Suc k \<le> j \<and> j < Suc k" for j
            using that by auto
          show "Suc k = 0 \<or> \<not> uphill (snd ([], h') (d ! (Suc k - 1)))"
            using low by (simp add: h'_out)
          show "\<exists>lo hi. lo \<le> i \<and> i \<le> hi \<and> closed_run ar (snd ([], h')) d (Suc k) lo hi"
            if "i < Suc k" and "uphill (snd ([], h') (d ! i))" for i
          proof -
            have below: "i < s"
            proof (rule ccontr)
              assume "\<not> i < s"
              then have "s \<le> i" by simp
              show False
              proof (cases "i = k")
                case True
                then show False using that(2) low by (simp add: h'_out)
              next
                case False
                then have "i < k" using that(1) by simp
                then show False using that(2) h'_in [OF \<open>s \<le> i\<close>] by simp
              qed
            qed
            then have "uphill (h (d ! i))"
              using that(2) by (simp add: h'_out)
            from old [OF below this, of h'] show ?thesis
              by (simp add: h'_out)
          qed
        qed
        then show ?thesis
          by (auto simp add: next_eq fh h'_def)
      qed
    qed
  qed
qed

lemma lowers_in_refl: "lowers_in d h h"
  by (simp add: lowers_in_def)

lemma lowers_in_trans:
  assumes "lowers_in d h h'" and "lowers_in d h' h''"
  shows "lowers_in d h h''"
  unfolding lowers_in_def
proof
  fix a
  from assms(1) have 1: "h' a = h a \<or> (a \<in> set d \<and> h' a = (h a)\<lparr>uphill := False\<rparr>)"
    by (simp add: lowers_in_def)
  from assms(2) have 2: "h'' a = h' a \<or> (a \<in> set d \<and> h'' a = (h' a)\<lparr>uphill := False\<rparr>)"
    by (simp add: lowers_in_def)
  from 1 2 show "h'' a = h a \<or> (a \<in> set d \<and> h'' a = (h a)\<lparr>uphill := False\<rparr>)"
    by auto
qed

lemma flush_lowers: "set segment \<subseteq> set d \<Longrightarrow> lowers_in d h (flush ar segment h)"
  by (auto simp add: lowers_in_def flush_def reset_segment_eq)

lemma scan_next_lowers:
  assumes "set (fst st) \<subseteq> set d" and "i < length d"
  shows "lowers_in d (snd st) (snd (scan_next ar d i st))"
    and "set (fst (scan_next ar d i st)) \<subseteq> set d"
  using assms by (simp_all add: scan_next_def lowers_in_refl flush_lowers)

lemma fold_scan_lowers:
  assumes "set (fst st) \<subseteq> set d" and "\<forall>i \<in> set idxs. i < length d"
  shows "lowers_in d (snd st) (snd (fold (scan_next ar d) idxs st))"
  using assms
proof (induction idxs arbitrary: st)
  case Nil
  show ?case by (simp add: lowers_in_refl)
next
  case (Cons i idxs)
  have i: "i < length d"
    using Cons.prems(2) by simp
  have sub: "set (fst (scan_next ar d i st)) \<subseteq> set d"
    by (rule scan_next_lowers(2) [OF Cons.prems(1) i])
  have "\<forall>j \<in> set idxs. j < length d"
    using Cons.prems(2) by simp
  from Cons.IH [OF sub this]
  have "lowers_in d (snd (scan_next ar d i st)) (snd (fold (scan_next ar d) idxs (scan_next ar d i st)))" .
  with scan_next_lowers(1) [OF Cons.prems(1) i]
  have "lowers_in d (snd st) (snd (fold (scan_next ar d) idxs (scan_next ar d i st)))"
    by (rule lowers_in_trans)
  then show ?case
    by simp
qed

lemma fold_scan_inv:
  assumes "distinct d" and "n \<le> length d"
  shows "k \<le> n \<Longrightarrow> scan_inv ar d k s st \<Longrightarrow>
         \<exists>s'. scan_inv ar d n s' (fold (scan_next ar d) [k..<n] st)"
proof (induction "n - k" arbitrary: k s st)
  case 0
  then have "k = n" by simp
  then show ?case
    using "0.prems"(2) by auto
next
  case (Suc m)
  then have k: "k < n" by simp
  then have kd: "k < length d"
    using assms(2) by simp
  from scan_step [OF Suc.prems(2) assms(1) kd] obtain s1 where
    s1: "scan_inv ar d (Suc k) s1 (scan_next ar d k st)"
    by blast
  have m: "m = n - Suc k"
    using Suc.hyps(2) by simp
  have "Suc k \<le> n"
    using k by simp
  from Suc.hyps(1) [OF m this s1] obtain s' where
    "scan_inv ar d n s' (fold (scan_next ar d) [Suc k..<n] (scan_next ar d k st))"
    by blast
  then have "scan_inv ar d n s' (fold (scan_next ar d) [k..<n] st)"
    using k by (simp add: upt_conv_Cons)
  then show ?case
    by blast
qed

lemma scan_inv_start: "scan_inv ar d 0 0 ([], h)"
  by (simp add: scan_inv_def)

text \<open>What a run of the classifier that returns has produced.\<close>

lemma detect_uphill_run:
  assumes run: "detect_uphill ar data h = Inr (d', h2)"
    and d: "d = sort_key (sort_by_timestamp h) data"
    and h1: "h1 = flag_ascents ar (length data) d h"
  obtains segment where "d' = d"
    and "filter_loop ar d [0..<length d] ([], h1) = Inr (segment, h2)"
    and "lowers_in d h1 h2"
    and "distinct data \<Longrightarrow> \<exists>s. scan_inv ar d (length d) s (segment, h2)"
proof -
  from run obtain segment where
    loop: "filter_loop ar d [0..<length d] ([], h1) = Inr (segment, h2)" and d': "d' = d"
    by (auto simp add: detect_uphill_def Let_def d [symmetric] h1 [symmetric]
        split: sum.splits)
  note st = filter_loop_returns [OF loop]
  have "lowers_in d (snd ([], h1)) (snd (fold (scan_next ar d) [0..<length d] ([], h1)))"
    using fold_scan_lowers [of "([], h1)" d "[0..<length d]" ar] by simp
  then have lw: "lowers_in d h1 h2"
    by (simp add: st [symmetric])
  have "\<exists>s. scan_inv ar d (length d) s (segment, h2)" if "distinct data"
  proof -
    have "distinct d"
      using that by (simp add: d)
    from fold_scan_inv [OF this order_refl le0 scan_inv_start, of ar h1]
    show ?thesis by (simp add: st [symmetric])
  qed
  with d' loop lw that show ?thesis
    by blast
qed

lemma lowers_in_fields: "lowers_in d h h' \<Longrightarrow> h' a = (h a)\<lparr>uphill := uphill (h' a)\<rparr>"
  unfolding lowers_in_def by (metis GPSREC.surjective GPSREC.update_convs(5) GPSREC.select_convs(5))

lemma lowers_in_uphill: "lowers_in d h h' \<Longrightarrow> uphill (h' a) \<Longrightarrow> uphill (h a)"
  unfolding lowers_in_def by (metis GPSREC.select_convs(5) GPSREC.surjective GPSREC.update_convs(5))

lemma lowers_in_outside: "lowers_in d h h' \<Longrightarrow> a \<notin> set d \<Longrightarrow> h' a = h a"
  unfolding lowers_in_def by blast

lemma uphill_only_trans:
  "r2 = r1\<lparr>uphill := b2\<rparr> \<Longrightarrow> r1 = r0\<lparr>uphill := b1\<rparr> \<Longrightarrow> r2 = r0\<lparr>uphill := uphill r2\<rparr>"
  by simp

lemma flagged_fields: "flagged ar h d n k a = (h a)\<lparr>uphill := uphill (flagged ar h d n k a)\<rparr>"
  by (simp add: flagged_def)

lemma flagged_outside: "a \<notin> set d \<Longrightarrow> n \<le> length d \<Longrightarrow> flagged ar h d n k a = h a"
  by (auto simp add: flagged_def ascent_from_def)

lemma flagged_uphill_distinct:
  assumes "distinct d" and "i < length d" and "\<not> uphill (h (d ! i))"
  shows "uphill (flagged ar h d (length d) (length d) (d ! i))
           \<longleftrightarrow> i + 1 < length d \<and> going_uphill ar h d i"
proof -
  have "ascent_from ar h d (length d) (length d) (d ! i) \<longleftrightarrow> i + 1 < length d \<and> going_uphill ar h d i"
    unfolding ascent_from_def using assms(1,2)
    by (auto simp add: nth_eq_iff_index_eq)
  then show ?thesis
    using assms(3) by (simp add: flagged_def)
qed

section \<open>Properties of the classifier\<close>

lemma sort_by_timestamp_key: "sort_by_timestamp h = (\<lambda>a. timestamp (h a))"
  by (rule ext) (simp add: sort_by_timestamp_def)

lemma pass1_uphill_iff:
  assumes "distinct d" and "\<forall>a \<in> set d. \<not> uphill (h a)" and "i < length d"
  shows "uphill (flag_ascents ar (length d) d h (d ! i))
           \<longleftrightarrow> i + 1 < length d \<and> going_uphill ar h d i"
proof -
  have "\<not> uphill (h (d ! i))"
    using assms(2,3) by simp
  then show ?thesis
    using flagged_uphill_distinct [of d i h ar] assms(1,3) by (simp add: flag_ascents_eq)
qed

lemma pass1_last:
  assumes "distinct d" and "\<forall>a \<in> set d. \<not> uphill (h a)" and "d \<noteq> []"
  shows "\<not> uphill (flag_ascents ar (length d) d h (last d))"
proof -
  have "length d - 1 < length d"
    using assms(3) by simp
  from pass1_uphill_iff [OF assms(1,2) this] show ?thesis
    using assms(3) by (simp add: last_conv_nth)
qed

text \<open>
  Claim C3. The input is a list of distinct record objects whose flags are all false,
  and the arithmetic is any float arithmetic. The first loop works on \<open>d\<close>, the input
  sorted by timestamp: \<open>d\<close> is a permutation of the input, ascending in the timestamps,
  and records with equal timestamps keep their input order. After the loop the record
  at position \<open>i\<close> of \<open>d\<close> has its flag set if and only if it has a successor and the
  test \<open>altitude[i+1] - altitude[i] >= 0.3\<close> holds, with the subtraction, the comparison
  and the literal \<open>0.3\<close> of the float arithmetic, as the source computes it. The last
  record of \<open>d\<close> does not have its flag set.
\<close>

theorem pass1_flags:
  fixes ar :: "'f arith" and data :: "addr list" and h :: "'f heap"
  defines "d \<equiv> sort_key (sort_by_timestamp h) data"
  defines "h1 \<equiv> flag_ascents ar (length data) d h"
  assumes "distinct data" and "\<forall>a \<in> set data. \<not> uphill (h a)"
  shows "mset d = mset data
    \<and> sorted (map (\<lambda>a. timestamp (h a)) d)
    \<and> (\<forall>t. filter (\<lambda>a. timestamp (h a) = t) d = filter (\<lambda>a. timestamp (h a) = t) data)
    \<and> (\<forall>i<length d. uphill (h1 (d ! i))
          \<longleftrightarrow> i + 1 < length d
              \<and> f_ge ar (f_sub ar (altitude (h (d ! (i + 1)))) (altitude (h (d ! i))))
                   (f_lit ar (3 / 10)))
    \<and> (d \<noteq> [] \<longrightarrow> \<not> uphill (h1 (last d)))"
proof -
  have dd: "distinct d" and len: "length data = length d"
    and low: "\<forall>a \<in> set d. \<not> uphill (h a)"
    using assms(3,4) by (simp_all add: d_def)
  have 1: "mset d = mset data"
    by (simp add: d_def)
  have 2: "sorted (map (\<lambda>a. timestamp (h a)) d)"
    unfolding d_def sort_by_timestamp_key by (rule sorted_sort_key)
  have 3: "\<forall>t. filter (\<lambda>a. timestamp (h a) = t) d = filter (\<lambda>a. timestamp (h a) = t) data"
    unfolding d_def sort_by_timestamp_key by (simp add: sort_key_stable)
  have 4: "\<forall>i<length d. uphill (h1 (d ! i))
          \<longleftrightarrow> i + 1 < length d
              \<and> f_ge ar (f_sub ar (altitude (h (d ! (i + 1)))) (altitude (h (d ! i))))
                   (f_lit ar (3 / 10))"
    unfolding h1_def len using pass1_uphill_iff [OF dd low, of _ ar]
    by (simp add: going_uphill_def point_to_point_elevation_threshold_def)
  have 5: "d \<noteq> [] \<longrightarrow> \<not> uphill (h1 (last d))"
    unfolding h1_def len using pass1_last [OF dd low, of ar] by simp
  from 1 2 3 4 5 show ?thesis
    by blast
qed

text \<open>
  Three records with the altitudes 0, 1, 2, given out of order, in exact arithmetic:
  they are sorted, the first two have their flag set and the last one has not.
\<close>

theorem pass1_flags_witness:
  "sort_key (sort_by_timestamp three_point_track) [2, 0, 1] = [0, 1, 2]
   \<and> map (\<lambda>a. uphill (flag_ascents exact 3 [0, 1, 2] three_point_track a)) [0, 1, 2]
       = [True, True, False]"
proof -
  have s: "sort_key (sort_by_timestamp three_point_track) [2, 0, 1] = [0, 1, 2]"
    by (simp add: sort_key_def sort_by_timestamp_def three_point_track_def store_of_def
        meridian_fix_def)
  have d: "distinct [2, 0, 1 :: nat]"
    by simp
  have l: "\<forall>a \<in> set [2, 0, 1]. \<not> uphill (three_point_track a)"
    by (simp add: three_point_track_def store_of_def meridian_fix_def)
  have alt: "altitude (three_point_track 0) = 0" "altitude (three_point_track (Suc 0)) = 1"
    "altitude (three_point_track 2) = 2"
    by (simp_all add: three_point_track_def store_of_def meridian_fix_def)
  from pass1_flags [OF d l, of exact, unfolded s]
  have f: "\<forall>i<length [0, 1, 2 :: nat].
      uphill (flag_ascents exact (length [2, 0, 1 :: nat]) [0, 1, 2] three_point_track
                ([0, 1, 2] ! i))
        \<longleftrightarrow> i + 1 < length [0, 1, 2 :: nat]
            \<and> f_ge exact (f_sub exact (altitude (three_point_track ([0, 1, 2] ! (i + 1))))
                                      (altitude (three_point_track ([0, 1, 2] ! i))))
                 (f_lit exact (3 / 10))"
    by blast
  have f0: "uphill (flag_ascents exact 3 [0, 1, 2] three_point_track 0)"
    using f [rule_format, of 0] by (simp add: alt numeral_3_eq_3 exact_ops)
  have f1: "uphill (flag_ascents exact 3 [0, 1, 2] three_point_track 1)"
    using f [rule_format, of 1] by (simp add: alt numeral_3_eq_3 exact_ops)
  have f2: "\<not> uphill (flag_ascents exact 3 [0, 1, 2] three_point_track 2)"
    using f [rule_format, of 2] by (simp add: alt numeral_3_eq_3 exact_ops)
  from s f0 f1 f2 show ?thesis
    by simp
qed

subsection \<open>A run that returns\<close>

lemma detect_uphill_frame:
  assumes d: "d = sort_key (sort_by_timestamp h) data"
    and run: "detect_uphill ar data h = Inr (d', h2)"
  shows "d' = d" and "mset d = mset data" and "sorted (map (\<lambda>a. timestamp (h2 a)) d)"
    and "\<And>a. h2 a = (h a)\<lparr>uphill := uphill (h2 a)\<rparr>"
    and "\<And>a. a \<notin> set data \<Longrightarrow> h2 a = h a"
proof -
  define h1 where "h1 = flag_ascents ar (length data) d h"
  from detect_uphill_run [OF run d h1_def] obtain segment where
    eq: "d' = d" and lw: "lowers_in d h1 h2"
    by blast
  show "d' = d" by (rule eq)
  show "mset d = mset data"
    by (simp add: d)
  show f2: "h2 a = (h a)\<lparr>uphill := uphill (h2 a)\<rparr>" for a
    by (rule uphill_only_trans [OF lowers_in_fields [OF lw, of a]])
       (simp add: h1_def flag_ascents_eq, rule flagged_fields)
  have ts: "timestamp (h2 a) = timestamp (h a)" for a
    by (subst f2) simp
  have "sorted (map (\<lambda>a. timestamp (h a)) d)"
    unfolding d sort_by_timestamp_key by (rule sorted_sort_key)
  then show "sorted (map (\<lambda>a. timestamp (h2 a)) d)"
    by (simp add: ts)
  show "h2 a = h a" if "a \<notin> set data" for a
  proof -
    from that have "a \<notin> set d"
      by (simp add: d)
    then show ?thesis
      using lowers_in_outside [OF lw, of a]
        flagged_outside [of a d "length data" ar h "length data"]
      by (simp add: h1_def flag_ascents_eq d)
  qed
qed

text \<open>In exact arithmetic every run returns.\<close>

lemma detect_uphill_exact:
  "\<exists>h2. detect_uphill exact data h = Inr (sort_key (sort_by_timestamp h) data, h2)"
  by (simp add: detect_uphill_def Let_def filter_loop_exact)

lemma scan_inv_flagged:
  "scan_inv ar d k s st \<Longrightarrow> s \<le> j \<Longrightarrow> j < k \<Longrightarrow> uphill (snd st (d ! j))"
  by (simp add: scan_inv_def)



text \<open>
  On distinct records whose flags are all false, a second loop that returns ends with
  no open segment, because the last record has no flag after the first loop.
\<close>

lemma classified_run:
  assumes dist: "distinct data" and low: "\<forall>a \<in> set data. \<not> uphill (h a)"
    and run: "detect_uphill ar data h = Inr (d, h2)"
  shows "d = sort_key (sort_by_timestamp h) data"
    and "scan_inv ar d (length d) (length d) ([], h2)"
    and "d \<noteq> [] \<Longrightarrow> \<not> uphill (h2 (last d))"
    and "filter_loop ar d [0..<length d] ([], flag_ascents ar (length data) d h) = Inr ([], h2)"
proof -
  define d0 where "d0 = sort_key (sort_by_timestamp h) data"
  define h1 where "h1 = flag_ascents ar (length data) d0 h"
  from detect_uphill_run [OF run d0_def h1_def] obtain segment where
    eq: "d = d0"
    and loop: "filter_loop ar d0 [0..<length d0] ([], h1) = Inr (segment, h2)"
    and lw: "lowers_in d0 h1 h2"
    and sc: "distinct data \<Longrightarrow> \<exists>s. scan_inv ar d0 (length d0) s (segment, h2)"
    by blast
  from sc [OF dist] obtain s where s: "scan_inv ar d (length d) s (segment, h2)"
    unfolding eq by blast
  have dd: "distinct d" and len: "length data = length d"
    and low': "\<forall>a \<in> set d. \<not> uphill (h a)"
    using dist low by (simp_all add: eq d0_def)
  have h1': "h1 = flag_ascents ar (length d) d h"
    by (simp add: h1_def eq [symmetric] len)
  have last1: "\<not> uphill (h1 (last d))" if "d \<noteq> []"
    unfolding h1' by (rule pass1_last [OF dd low' that])
  have last2: "\<not> uphill (h2 (last d))" if "d \<noteq> []"
    using last1 [OF that] lowers_in_uphill [OF lw] by blast
  have sl: "s = length d"
  proof (rule ccontr)
    assume "s \<noteq> length d"
    with s have lt: "s < length d"
      by (simp add: scan_inv_def)
    then have "uphill (h2 (d ! (length d - 1)))"
      using scan_inv_flagged [OF s, of "length d - 1"] by simp
    moreover have "d \<noteq> []"
      using lt by auto
    ultimately show False
      using last2 by (simp add: last_conv_nth)
  qed
  from s sl have e: "segment = []"
    by (simp add: scan_inv_def)
  show "d = sort_key (sort_by_timestamp h) data"
    by (simp add: eq d0_def)
  from s sl e show "scan_inv ar d (length d) (length d) ([], h2)"
    by simp
  show "\<not> uphill (h2 (last d))" if "d \<noteq> []"
    by (rule last2 [OF that])
  from loop e
  show "filter_loop ar d [0..<length d] ([], flag_ascents ar (length data) d h) = Inr ([], h2)"
    by (simp add: h1_def eq)
qed

subsection \<open>Runs of the classifier on the example tracks, in exact arithmetic\<close>

lemmas run_simps = detect_uphill_def Let_def sort_by_timestamp_def sort_key_def
  flag_ascents_def flag_step_def going_uphill_def point_to_point_elevation_threshold_def
  exact_ops set_uphill_def filter_step_exact scan_next_def flush_def reset_segment_def
  store_of_def meridian_fix_def upt_rec [of 0] upt_rec [of 1] upt_rec [of 2] upt_rec [of 3]
  upt_rec [of 4] upt_rec [of "Suc 0"]

lemma ascent_track_run:
  "\<exists>h2. detect_uphill exact [0, 1, 2, 3] ascent_track = Inr ([0, 1, 2, 3], h2)
     \<and> map (\<lambda>a. uphill (h2 a)) [0, 1, 2, 3] = [True, True, False, False]"
  by (simp add: ascent_track_def run_simps significant_far)

lemma ascent_track_input:
  "distinct [0, 1, 2, 3 :: nat]" "\<forall>a \<in> set [0, 1, 2, 3]. \<not> uphill (ascent_track a)"
  by (simp_all add: ascent_track_def store_of_def meridian_fix_def)

text \<open>
  Claim C8. For every float arithmetic and every input: when the classifier returns,
  the list it returns is a permutation of the input list and is ascending in the
  timestamps. In the store it returns, every record has the timestamp, longitude,
  latitude and altitude it had before, and a record that is not in the input is
  unchanged altogether: only \<open>uphill\<close> fields of input records are written.
  (The classifier does not return when the distance calculator raises.)
\<close>

theorem classifier_frame:
  assumes "detect_uphill ar data h = Inr (d, h2)"
  shows "mset d = mset data
     \<and> sorted (map (\<lambda>a. timestamp (h2 a)) d)
     \<and> (\<forall>a. timestamp (h2 a) = timestamp (h a) \<and> longitude (h2 a) = longitude (h a)
            \<and> latitude (h2 a) = latitude (h a) \<and> altitude (h2 a) = altitude (h a))
     \<and> (\<forall>a. a \<in> set data \<or> h2 a = h a)"
proof -
  define d0 where "d0 = sort_key (sort_by_timestamp h) data"
  note fr = detect_uphill_frame [OF d0_def assms]
  have fields: "timestamp (h2 a) = timestamp (h a) \<and> longitude (h2 a) = longitude (h a)
            \<and> latitude (h2 a) = latitude (h a) \<and> altitude (h2 a) = altitude (h a)" for a
    by (subst (1 2 3 4) fr(4)) simp
  have out: "a \<in> set data \<or> h2 a = h a" for a
    using fr(5) [of a] by blast
  from fr(2,3) fields out show ?thesis
    unfolding fr(1) by blast
qed

text \<open>
  The run on the four-record track, in exact arithmetic, returns the four records in
  order; the record at address 0 keeps its altitude and the record at address 7, which
  is not in the input, is unchanged.
\<close>

theorem classifier_frame_witness:
  "\<exists>h2. detect_uphill exact [0, 1, 2, 3] ascent_track = Inr ([0, 1, 2, 3], h2)
     \<and> mset [0, 1, 2, 3 :: nat] = mset [0, 1, 2, 3]
     \<and> sorted (map (\<lambda>a. timestamp (h2 a)) [0, 1, 2, 3])
     \<and> altitude (h2 0) = altitude (ascent_track 0)
     \<and> h2 7 = ascent_track 7"
proof -
  from ascent_track_run obtain h2 where
    run: "detect_uphill exact [0, 1, 2, 3] ascent_track = Inr ([0, 1, 2, 3], h2)"
    by blast
  from classifier_frame [OF run]
  have "sorted (map (\<lambda>a. timestamp (h2 a)) [0, 1, 2, 3])"
    and "altitude (h2 0) = altitude (ascent_track 0)"
    and "7 \<in> set [0, 1, 2, 3 :: nat] \<or> h2 7 = ascent_track 7"
    by blast+
  with run show ?thesis
    by auto
qed



text \<open>
  Claim C10. The input is a non-empty list of distinct record objects whose flags are
  all false, and the arithmetic is any float arithmetic. When the classifier returns,
  the last record of the returned list has the greatest timestamp of all input
  records, and its flag is not set in the output. The second loop has ended with an
  empty segment, so that no segment is left without a flush.
\<close>

theorem last_fix_not_uphill:
  assumes "distinct data" and "\<forall>a \<in> set data. \<not> uphill (h a)" and "data \<noteq> []"
    and "detect_uphill ar data h = Inr (d, h2)"
  shows "d \<noteq> []
     \<and> (\<forall>a \<in> set data. timestamp (h2 a) \<le> timestamp (h2 (last d)))
     \<and> \<not> uphill (h2 (last d))
     \<and> filter_loop ar d [0..<length d] ([], flag_ascents ar (length data) d h) = Inr ([], h2)"
proof -
  note cr = classified_run [OF assms(1,2,4)]
  have ne: "d \<noteq> []"
    using assms(3) cr(1) by (metis length_sort length_0_conv)
  have srt: "sorted (map (\<lambda>a. timestamp (h2 a)) d)" and ms: "mset d = mset data"
    using detect_uphill_frame(1,2,3) [OF refl assms(4)] by simp_all
  have "timestamp (h2 a) \<le> timestamp (h2 (last d))" if "a \<in> set data" for a
  proof -
    from that ms have "a \<in> set d"
      by (metis set_mset_mset)
    then obtain i where i: "i < length d" "d ! i = a"
      by (auto simp add: in_set_conv_nth)
    have "map (\<lambda>a. timestamp (h2 a)) d ! i \<le> map (\<lambda>a. timestamp (h2 a)) d ! (length d - 1)"
      by (rule sorted_nth_mono [OF srt]) (use i ne in simp_all)
    then show ?thesis
      using i ne by (simp add: last_conv_nth)
  qed
  with ne cr(3) [OF ne] cr(4) show ?thesis
    by blast
qed

text \<open>
  On the four-record track, in exact arithmetic, the last record, at address 3, does
  not have its flag set.
\<close>

theorem last_fix_not_uphill_witness:
  "\<exists>h2. detect_uphill exact [0, 1, 2, 3] ascent_track = Inr ([0, 1, 2, 3], h2)
     \<and> \<not> uphill (h2 3)"
proof -
  have ne: "[0, 1, 2, 3 :: nat] \<noteq> []"
    by simp
  from ascent_track_run obtain h2 where
    run: "detect_uphill exact [0, 1, 2, 3] ascent_track = Inr ([0, 1, 2, 3], h2)"
    by blast
  from last_fix_not_uphill [OF ascent_track_input ne run]
  have "\<not> uphill (h2 (last [0, 1, 2, 3]))"
    by blast
  with run show ?thesis
    by auto
qed

text \<open>
  In the pipeline the classifier is run on the output of the deduplicator, for records
  that the parser has constructed with the default \<open>uphill=False\<close>. There a second loop
  that returns never ends with an open segment.
\<close>

lemma pipeline_no_open_segment:
  assumes "\<forall>a \<in> set data. \<not> uphill (h a)"
    and "detect_uphill ar (clean_gga_data h data) h = Inr (d, h2)"
  shows "filter_loop ar d [0..<length d] ([], flag_ascents ar (length d) d h) = Inr ([], h2)"
proof -
  have low: "\<forall>a \<in> set (clean_gga_data h data). \<not> uphill (h a)"
    using assms(1) clean_gga_data_subset [of h data] by blast
  note cr = classified_run [OF clean_gga_data_distinct low assms(2)]
  have "length (clean_gga_data h data) = length d"
    by (simp add: cr(1))
  with cr(4) show ?thesis
    by simp
qed

subsection \<open>Running the classifier again\<close>

lemma uphill_only_update: "r2 = r1\<lparr>uphill := b\<rparr> \<Longrightarrow> r2\<lparr>uphill := c\<rparr> = r1\<lparr>uphill := c\<rparr>"
  by simp

lemma uphill_only_same: "r2 = r1\<lparr>uphill := b\<rparr> \<Longrightarrow> \<not> b \<Longrightarrow> \<not> uphill r1 \<Longrightarrow> r2 = r1"
  by (cases r1) simp

text \<open>
  Claim C7 as it is stated, for the output of any run, does not hold: the first loop
  only ever sets a flag, so a flag that is already set on the input takes part in the
  segments of the first run and not in those of the second. On \<open>preflagged_track\<close>, in
  exact arithmetic, the first run forms the segment of the records 0, 1, 2, whose first
  and last record are about a metre apart, and resets it; the run on that output forms
  the segment of the records 0 and 1, which are one degree apart, and keeps it.
\<close>

theorem rerun_differs_on_preflagged_track:
  "\<exists>h2. detect_uphill exact [0, 1, 2, 3] preflagged_track = Inr ([0, 1, 2, 3], h2)
     \<and> map (\<lambda>a. uphill (h2 a)) [0, 1, 2, 3] = [False, False, False, False]
     \<and> (\<exists>h3. detect_uphill exact [0, 1, 2, 3] h2 = Inr ([0, 1, 2, 3], h3)
           \<and> map (\<lambda>a. uphill (h3 a)) [0, 1, 2, 3] = [True, True, False, False])"
  by (simp add: preflagged_track_def run_simps significant_far significant_near)

text \<open>
  Claim C7, amended. The arithmetic is any float arithmetic. When the flags of all
  input records are false and the classifier returns, running the classifier on its
  own output returns the same list and the same store, so every record keeps the flag
  the first run gave it.
\<close>

theorem rerun_identical:
  assumes "\<forall>a \<in> set data. \<not> uphill (h a)"
    and "detect_uphill ar data h = Inr (d, h2)"
  shows "detect_uphill ar d h2 = Inr (d, h2)"
proof -
  define h1 where "h1 = flag_ascents ar (length data) d h"
  note fr = detect_uphill_frame [OF refl assms(2)]
  have d: "d = sort_key (sort_by_timestamp h) data"
    by (rule fr(1))
  from detect_uphill_run [OF assms(2) d h1_def] obtain segment where
    loop: "filter_loop ar d [0..<length d] ([], h1) = Inr (segment, h2)"
    and lw: "lowers_in d h1 h2"
    by blast
  have len: "length data = length d"
    by (subst d) simp
  have srt: "sorted (map (\<lambda>a. timestamp (h2 a)) d)"
    using fr(3) d by simp
  have alt: "altitude (h2 a) = altitude (h a)" for a
    by (subst fr(4)) simp
  have d2: "sort_key (sort_by_timestamp h2) d = d"
    unfolding sort_by_timestamp_key by (rule sort_key_id_if_sorted [OF srt])
  have going: "going_uphill ar h2 d i = going_uphill ar h d i" for i
    by (simp add: going_uphill_def alt)
  have asc: "ascent_from ar h2 d n k a = ascent_from ar h d n k a" for n k a
    by (simp add: ascent_from_def going)
  have "flagged ar h2 d (length d) (length d) a = h1 a" for a
  proof (cases "ascent_from ar h d (length d) (length d) a")
    case True
    have "h2 a = (h1 a)\<lparr>uphill := uphill (h2 a)\<rparr>"
      by (rule lowers_in_fields [OF lw])
    then have "(h2 a)\<lparr>uphill := True\<rparr> = (h1 a)\<lparr>uphill := True\<rparr>"
      by (rule uphill_only_update)
    then show ?thesis
      using True by (simp add: flagged_def asc h1_def flag_ascents_eq len)
  next
    case False
    then have h1a: "h1 a = h a"
      by (simp add: h1_def flag_ascents_eq len flagged_def)
    have "h2 a = h a"
    proof (cases "a \<in> set data")
      case True
      then have n1: "\<not> uphill (h1 a)"
        using assms(1) by (simp add: h1a)
      then have "\<not> uphill (h2 a)"
        using lowers_in_uphill [OF lw] by blast
      with lowers_in_fields [OF lw, of a] have "h2 a = h1 a"
        using n1 by (rule uphill_only_same)
      then show ?thesis
        by (simp add: h1a)
    next
      case False
      then show ?thesis by (rule fr(5))
    qed
    then show ?thesis
      using False h1a by (simp add: flagged_def asc)
  qed
  then have "flag_ascents ar (length d) d h2 = h1"
    unfolding flag_ascents_eq by (rule ext)
  then show ?thesis
    using loop by (simp add: detect_uphill_def Let_def d2)
qed

text \<open>
  The run on the output of the four-record track, in exact arithmetic, returns that
  output.
\<close>

theorem rerun_identical_witness:
  "\<exists>h2. detect_uphill exact [0, 1, 2, 3] ascent_track = Inr ([0, 1, 2, 3], h2)
     \<and> detect_uphill exact [0, 1, 2, 3] h2 = Inr ([0, 1, 2, 3], h2)"
proof -
  from ascent_track_run obtain h2 where
    run: "detect_uphill exact [0, 1, 2, 3] ascent_track = Inr ([0, 1, 2, 3], h2)"
    by blast
  from rerun_identical [OF ascent_track_input(2) run] run show ?thesis
    by blast
qed

subsection \<open>A segment that is open at the end of the scan\<close>

text \<open>
  Claim C2 says that a segment still open when the scan ends is flushed like one that
  ends at an unflagged record. The second loop has no flush after its last iteration.
  On \<open>trailing_track\<close> (two records about a metre apart, the later one flagged on input)
  the segment of the records 0 and 1 is open at the end and both records stay flagged,
  although they are less than 10 metres apart. On \<open>bounded_track\<close>, the same two records
  followed by an unflagged one, the segment is flushed and both flags are reset.
  Both runs are in exact arithmetic.
\<close>

theorem trailing_segment_not_flushed:
  "(\<exists>h2. detect_uphill exact [0, 1] trailing_track = Inr ([0, 1], h2)
      \<and> map (\<lambda>a. uphill (h2 a)) [0, 1] = [True, True]
      \<and> \<not> significant exact (h2 0) (h2 1))
   \<and> (\<exists>h2. detect_uphill exact [0, 1, 2] bounded_track = Inr ([0, 1, 2], h2)
      \<and> map (\<lambda>a. uphill (h2 a)) [0, 1, 2] = [False, False, False])"
  by (simp add: trailing_track_def bounded_track_def run_simps significant_near)

end
